theory Spec2Isabelle
  imports Main "HOL-Library.Word" "HOL-Library.Sublist"
begin

unbundle bit_operations_syntax

section \<open>The ring buffer of \<^verbatim>\<open>ring_buffer.c\<close>\<close>

text \<open>
  \<^verbatim>\<open>size_t\<close> is a 64-bit word and \<^verbatim>\<open>uint8_t\<close> an 8-bit word. An array is a list of
  its elements; every array access of the C code is an access with an index check in the
  model, and an access outside the array (undefined behaviour in C) makes the call return
  \<open>None\<close>. The atomic loads and stores are plain reads and writes of the record fields:
  the model is the sequential semantics of one call at a time. The caller's buffer (\<open>src\<close>,
  \<open>dst\<close>) is an array of its own, apart from the storage of the ring buffer. The locals
  \<^verbatim>\<open>head\<close> and \<^verbatim>\<open>tail\<close> of the C functions are \<open>h\<close> and \<open>t\<close> here, since the fields of
  the struct have these names.
\<close>

type_synonym u8 = "8 word"
type_synonym size_t = "64 word"

definition BUFFER_SIZE :: size_t where
  "BUFFER_SIZE = 1024"

record ring_buffer_t =
  data :: "u8 list"
  head :: size_t
  tail :: size_t

text \<open>The loop of \<^verbatim>\<open>ring_push\<close>: \<^verbatim>\<open>rb->data[(head + i) & (BUFFER_SIZE - 1)] = src[i]\<close>
  for \<open>i\<close> from its current value up to \<open>len\<close>.\<close>

function push_loop :: "u8 list \<Rightarrow> size_t \<Rightarrow> u8 list \<Rightarrow> size_t \<Rightarrow> size_t \<Rightarrow> u8 list option" where
  "push_loop d h src len i =
     (if i < len then
        (if unat i < length src \<and> unat ((h + i) AND (BUFFER_SIZE - 1)) < length d
         then push_loop (d[unat ((h + i) AND (BUFFER_SIZE - 1)) := src ! unat i]) h src len (i + 1)
         else None)
      else Some d)"
  by pat_completeness auto
termination
proof (relation "measure (\<lambda>(d, h, src, len, i). unat len - unat i)")
  show "wf (measure (\<lambda>(d, h, src, len, i). unat len - unat i))"
    by simp
next
  fix d :: "u8 list" and h :: size_t and src :: "u8 list" and len i :: size_t
  assume "i < len"
  then have "unat (i + 1) = unat i + 1" and "unat i < unat len"
    by unat_arith+
  then show "((d[unat ((h + i) AND (BUFFER_SIZE - 1)) := src ! unat i], h, src, len, i + 1),
              (d, h, src, len, i)) \<in> measure (\<lambda>(d, h, src, len, i). unat len - unat i)"
    by simp
qed

declare push_loop.simps [simp del]

definition ring_push :: "ring_buffer_t \<Rightarrow> u8 list \<Rightarrow> size_t \<Rightarrow> (ring_buffer_t \<times> bool) option" where
  "ring_push rb src len =
     (let h = head rb;
          t = tail rb;
          available = (t - h - 1) AND (BUFFER_SIZE - 1)
      in if len > available then Some (rb, False)
         else (case push_loop (data rb) h src len 0 of
                 None \<Rightarrow> None
               | Some d \<Rightarrow> Some (rb\<lparr>data := d, head := (h + len) AND (BUFFER_SIZE - 1)\<rparr>, True)))"

text \<open>The loop of \<^verbatim>\<open>ring_pop\<close>: \<^verbatim>\<open>dst[i] = rb->data[(tail + i) & (BUFFER_SIZE - 1)]\<close>.\<close>

function pop_loop :: "u8 list \<Rightarrow> size_t \<Rightarrow> u8 list \<Rightarrow> size_t \<Rightarrow> size_t \<Rightarrow> u8 list option" where
  "pop_loop d t dst len i =
     (if i < len then
        (if unat i < length dst \<and> unat ((t + i) AND (BUFFER_SIZE - 1)) < length d
         then pop_loop d t (dst[unat i := d ! unat ((t + i) AND (BUFFER_SIZE - 1))]) len (i + 1)
         else None)
      else Some dst)"
  by pat_completeness auto
termination
proof (relation "measure (\<lambda>(d, t, dst, len, i). unat len - unat i)")
  show "wf (measure (\<lambda>(d, t, dst, len, i). unat len - unat i))"
    by simp
next
  fix d :: "u8 list" and t :: size_t and dst :: "u8 list" and len i :: size_t
  assume "i < len"
  then have "unat (i + 1) = unat i + 1" and "unat i < unat len"
    by unat_arith+
  then show "((d, t, dst[unat i := d ! unat ((t + i) AND (BUFFER_SIZE - 1))], len, i + 1),
              (d, t, dst, len, i)) \<in> measure (\<lambda>(d, t, dst, len, i). unat len - unat i)"
    by simp
qed

declare pop_loop.simps [simp del]

definition ring_pop :: "ring_buffer_t \<Rightarrow> u8 list \<Rightarrow> size_t \<Rightarrow> (ring_buffer_t \<times> u8 list \<times> bool) option" where
  "ring_pop rb dst len =
     (let t = tail rb;
          h = head rb;
          available = (h - t) AND (BUFFER_SIZE - 1)
      in if len > available then Some (rb, dst, False)
         else (case pop_loop (data rb) t dst len 0 of
                 None \<Rightarrow> None
               | Some dst' \<Rightarrow> Some (rb\<lparr>tail := (t + len) AND (BUFFER_SIZE - 1)\<rparr>, dst', True)))"


text \<open>\<^verbatim>\<open>init_buffer\<close> of \<^verbatim>\<open>test_unit.c\<close>: the whole struct is zeroed by \<^verbatim>\<open>memset\<close>, then
  both cursors are stored as 0.\<close>

definition init_buffer :: ring_buffer_t where
  "init_buffer = \<lparr>data = replicate (unat BUFFER_SIZE) 0, head = 0, tail = 0\<rparr>"

subsection \<open>The quantities of the specification\<close>

text \<open>The specification's \<open>occupied_bytes = (write_cursor - read_cursor) mod N\<close> and
  \<open>free_bytes = (read_cursor - write_cursor - 1) mod N\<close>, over the integers; \<open>head\<close> is the
  write cursor and \<open>tail\<close> the read cursor.\<close>

definition occupied_bytes :: "ring_buffer_t \<Rightarrow> int" where
  "occupied_bytes rb = (uint (head rb) - uint (tail rb)) mod uint BUFFER_SIZE"

definition free_bytes :: "ring_buffer_t \<Rightarrow> int" where
  "free_bytes rb = (uint (tail rb) - uint (head rb) - 1) mod uint BUFFER_SIZE"

text \<open>The bytes of an array read, and written, along the ring from position \<open>s\<close> on.\<close>

definition ring_read :: "u8 list \<Rightarrow> nat \<Rightarrow> nat \<Rightarrow> u8 list" where
  "ring_read d s n = map (\<lambda>k. d ! ((s + k) mod 1024)) [0..<n]"

fun ring_write :: "u8 list \<Rightarrow> nat \<Rightarrow> u8 list \<Rightarrow> u8 list" where
  "ring_write d s [] = d"
| "ring_write d s (x # xs) = ring_write (d[s mod 1024 := x]) (Suc s) xs"

text \<open>The unread bytes of a buffer, oldest first: the \<open>occupied_bytes\<close> bytes from the read
  cursor on.\<close>

definition contents :: "ring_buffer_t \<Rightarrow> u8 list" where
  "contents rb = ring_read (data rb) (unat (tail rb)) (nat (occupied_bytes rb))"

subsection \<open>Sequences of calls\<close>

text \<open>The states reachable from a buffer with both cursors at 0 (and any storage contents) by
  calls of \<open>ring_push\<close> and \<open>ring_pop\<close>, with any arguments and either result.\<close>

inductive reachable :: "ring_buffer_t \<Rightarrow> bool" where
  reachable_init: "length d = unat BUFFER_SIZE \<Longrightarrow> reachable \<lparr>data = d, head = 0, tail = 0\<rparr>"
| reachable_push: "reachable rb \<Longrightarrow> ring_push rb src len = Some (rb', ok) \<Longrightarrow> reachable rb'"
| reachable_pop: "reachable rb \<Longrightarrow> ring_pop rb dst len = Some (rb', dst', ok) \<Longrightarrow> reachable rb'"

datatype call = Push "u8 list" size_t | Pop "u8 list" size_t

text \<open>Running a sequence of calls; the result is the final state and the bytes the successful
  pops returned, in order.\<close>

fun run :: "ring_buffer_t \<Rightarrow> call list \<Rightarrow> (ring_buffer_t \<times> u8 list) option" where
  "run rb [] = Some (rb, [])"
| "run rb (Push src len # cs) =
     (case ring_push rb src len of
        None \<Rightarrow> None
      | Some (rb', ok) \<Rightarrow> run rb' cs)"
| "run rb (Pop dst len # cs) =
     (case ring_pop rb dst len of
        None \<Rightarrow> None
      | Some (rb', dst', ok) \<Rightarrow>
          (case run rb' cs of
             None \<Rightarrow> None
           | Some (rb'', out) \<Rightarrow> Some (rb'', (if ok then take (unat len) dst' else []) @ out)))"

text \<open>All bytes supplied to the pushes of a sequence, in order.\<close>

fun supplied :: "call list \<Rightarrow> u8 list" where
  "supplied [] = []"
| "supplied (Push src len # cs) = take (unat len) src @ supplied cs"
| "supplied (Pop dst len # cs) = supplied cs"

text \<open>A sequence fits a state when each push asks for no more than the free bytes and each pop
  for no more than the occupied bytes at the time of the call, and the caller's buffer holds at
  least \<open>len\<close> bytes.\<close>

fun fits :: "ring_buffer_t \<Rightarrow> call list \<Rightarrow> bool" where
  "fits rb [] = True"
| "fits rb (Push src len # cs) =
     (uint len \<le> free_bytes rb \<and> unat len \<le> length src \<and>
      (case ring_push rb src len of None \<Rightarrow> False | Some (rb', ok) \<Rightarrow> fits rb' cs))"
| "fits rb (Pop dst len # cs) =
     (uint len \<le> occupied_bytes rb \<and> unat len \<le> length dst \<and>
      (case ring_pop rb dst len of None \<Rightarrow> False | Some (rb', dst', ok) \<Rightarrow> fits rb' cs))"

subsection \<open>States of the unit tests\<close>

text \<open>The state of \<^verbatim>\<open>pop_more_than_available_fails\<close> after its push of the bytes 1, 2, 3 into
  an initialised buffer; the same state after a further push of 4, 5, 6; and an empty buffer
  whose cursors stand two bytes before the end of the array, as an initialised buffer after a
  push and a pop of 1022 zero bytes.\<close>

definition three_bytes :: ring_buffer_t where
  "three_bytes = \<lparr>data = (replicate 1024 0)[0 := 1, 1 := 2, 2 := 3], head = 3, tail = 0\<rparr>"

definition six_bytes :: ring_buffer_t where
  "six_bytes = \<lparr>data = (replicate 1024 0)[0 := 1, 1 := 2, 2 := 3, 3 := 4, 4 := 5, 5 := 6],
                 head = 6, tail = 0\<rparr>"

definition near_end :: ring_buffer_t where
  "near_end = \<lparr>data = replicate 1024 0, head = 1022, tail = 1022\<rparr>"

section \<open>Word arithmetic of the cursors\<close>

lemma uint_mask: "uint ((w::size_t) AND (BUFFER_SIZE - 1)) = uint w mod 1024"
proof -
  have "(BUFFER_SIZE - 1) = mask 10" by (simp add: mask_eq_exp_minus_1 BUFFER_SIZE_def)
  then have "w AND (BUFFER_SIZE - 1) = take_bit 10 w" by (simp only: take_bit_eq_mask)
  moreover have "uint (take_bit 10 w) = take_bit 10 (uint w)" by (rule unsigned_take_bit_eq)
  moreover have "take_bit 10 (uint w) = uint w mod 2 ^ 10" by (rule take_bit_eq_mod)
  ultimately show ?thesis by simp
qed

lemma mod_word_1024: "(x mod 18446744073709551616) mod 1024 = (x::int) mod 1024"
  by (rule mod_mod_cancel) simp

lemma uint_sub_mask: "uint (((a::size_t) - b) AND (BUFFER_SIZE - 1)) = (uint a - uint b) mod 1024"
  by (simp add: uint_mask uint_word_ariths mod_word_1024)

lemma uint_add_mask: "uint (((a::size_t) + b) AND (BUFFER_SIZE - 1)) = (uint a + uint b) mod 1024"
  by (simp add: uint_mask uint_word_ariths mod_word_1024)

lemma uint_free_mask:
  "uint (((t::size_t) - h - 1) AND (BUFFER_SIZE - 1)) = (uint t - uint h - 1) mod 1024"
  by (simp add: uint_mask uint_word_ariths mod_word_1024 mod_simps)

lemma unat_add_mask: "unat (((a::size_t) + b) AND (BUFFER_SIZE - 1)) = (unat a + unat b) mod 1024"
proof -
  have "int (unat ((a + b) AND (BUFFER_SIZE - 1))) = int ((unat a + unat b) mod 1024)"
    by (simp add: uint_add_mask zmod_int)
  then show ?thesis by (simp only: of_nat_eq_iff)
qed

lemma unat_mask_less: "unat ((w::size_t) AND (BUFFER_SIZE - 1)) < 1024"
  using unat_add_mask [of w 0] by simp

section \<open>The copy loops\<close>

lemma push_loop_eq:
  "length d = 1024 \<Longrightarrow> unat len \<le> length src \<Longrightarrow> i \<le> len \<Longrightarrow>
   push_loop d h src len i =
     Some (ring_write d (unat h + unat i) (drop (unat i) (take (unat len) src)))"
proof (induction d h src len i rule: push_loop.induct)
  case (1 d h src len i)
  show ?case
  proof (cases "i < len")
    case True
    then have s: "unat (i + 1) = Suc (unat i)" and l: "unat i < unat len" and le: "i + 1 \<le> len"
      by unat_arith+
    have idx: "unat ((h + i) AND (BUFFER_SIZE - 1)) = (unat h + unat i) mod 1024"
      by (rule unat_add_mask)
    have dr: "drop (unat i) (take (unat len) src) = src ! unat i # drop (Suc (unat i)) (take (unat len) src)"
      using l "1.prems"(2) by (simp add: Cons_nth_drop_Suc [symmetric])
    have "push_loop d h src len i =
            push_loop (d[unat ((h + i) AND (BUFFER_SIZE - 1)) := src ! unat i]) h src len (i + 1)"
      using True l "1.prems" unat_mask_less [of "h + i"] 
      by (subst push_loop.simps) simp
    also have "\<dots> = Some (ring_write (d[unat ((h + i) AND (BUFFER_SIZE - 1)) := src ! unat i])
                         (unat h + unat (i + 1)) (drop (unat (i + 1)) (take (unat len) src)))"
      using True l "1.prems" unat_mask_less [of "h + i"] le
      by (intro "1.IH") simp_all
    finally show ?thesis
      by (simp add: s idx dr)
  next
    case False
    with "1.prems" have "i = len" by simp
    then show ?thesis by (subst push_loop.simps) simp
  qed
qed


lemma pop_loop_eq:
  "length d = 1024 \<Longrightarrow> unat len \<le> length dst \<Longrightarrow> i \<le> len \<Longrightarrow>
   pop_loop d t dst len i =
     Some (take (unat i) dst @ ring_read d (unat t + unat i) (unat len - unat i) @ drop (unat len) dst)"
proof (induction d t dst len i rule: pop_loop.induct)
  case (1 d t dst len i)
  show ?case
  proof (cases "i < len")
    case True
    then have s: "unat (i + 1) = Suc (unat i)" and l: "unat i < unat len" and le: "i + 1 \<le> len"
      by unat_arith+
    let ?v = "d ! unat ((t + i) AND (BUFFER_SIZE - 1))"
    have idx: "unat ((t + i) AND (BUFFER_SIZE - 1)) = (unat t + unat i) mod 1024"
      by (rule unat_add_mask)
    have rd: "ring_read d (unat t + unat i) (unat len - unat i) =
                ?v # ring_read d (unat t + Suc (unat i)) (unat len - Suc (unat i))"
    proof -
      from l have "[0..<unat len - unat i] = 0 # map Suc [0..<unat len - Suc (unat i)]"
        by (metis Suc_diff_Suc map_Suc_upt upt_conv_Cons zero_less_diff)
      then show ?thesis
        by (simp add: ring_read_def idx comp_def)
    qed
    have tk: "take (Suc (unat i)) (dst[unat i := ?v]) = take (unat i) dst @ [?v]"
      using l "1.prems"(2) by (simp add: take_Suc_conv_app_nth)
    have "pop_loop d t dst len i = pop_loop d t (dst[unat i := ?v]) len (i + 1)"
      using True l "1.prems" unat_mask_less [of "t + i"]
      by (subst pop_loop.simps) simp
    also have "\<dots> = Some (take (unat (i + 1)) (dst[unat i := ?v]) @
                          ring_read d (unat t + unat (i + 1)) (unat len - unat (i + 1)) @
                          drop (unat len) (dst[unat i := ?v]))"
      using True l "1.prems" unat_mask_less [of "t + i"] le
      by (intro "1.IH") simp_all
    finally show ?thesis
      using l by (simp add: s rd tk)
  next
    case False
    with "1.prems" have "i = len" by simp
    then show ?thesis by (subst pop_loop.simps) (simp add: ring_read_def)
  qed
qed

lemma length_ring_write: "length (ring_write d s xs) = length d"
  by (induction xs arbitrary: d s) simp_all

lemma ring_write_other:
  "(\<And>k. k < length xs \<Longrightarrow> (s + k) mod 1024 \<noteq> j) \<Longrightarrow> ring_write d s xs ! j = d ! j"
proof (induction xs arbitrary: d s)
  case Nil
  show ?case by simp
next
  case (Cons x xs)
  have "ring_write (d[s mod 1024 := x]) (Suc s) xs ! j = d[s mod 1024 := x] ! j"
  proof (rule Cons.IH)
    fix k assume "k < length xs"
    then show "(Suc s + k) mod 1024 \<noteq> j" using Cons.prems [of "Suc k"] by simp
  qed
  moreover have "s mod 1024 \<noteq> j" using Cons.prems [of 0] by simp
  ultimately show ?case by simp
qed

lemma mod_shift_neq:
  fixes s m :: nat
  assumes "0 < m" "m < 1024"
  shows "(s + m) mod 1024 \<noteq> s mod 1024"
proof
  assume "(s + m) mod 1024 = s mod 1024"
  then have "(1024::nat) dvd (s + m) - s" by (simp add: mod_eq_dvd_iff_nat)
  then have "(1024::nat) dvd m" by simp
  with assms show False by (auto dest: dvd_imp_le)
qed


lemma push_loop_Some:
  "push_loop d h src len i = Some d' \<Longrightarrow> i \<le> len \<Longrightarrow>
   d' = ring_write d (unat h + unat i) (drop (unat i) (take (unat len) src)) \<and>
   (i < len \<longrightarrow> unat len \<le> length src)"
proof (induction d h src len i rule: push_loop.induct)
  case (1 d h src len i)
  show ?case
  proof (cases "i < len")
    case True
    then have s: "unat (i + 1) = Suc (unat i)" and l: "unat i < unat len" and le: "i + 1 \<le> len"
      by unat_arith+
    let ?d = "d[unat ((h + i) AND (BUFFER_SIZE - 1)) := src ! unat i]"
    have "push_loop d h src len i =
            (if unat i < length src \<and> unat ((h + i) AND (BUFFER_SIZE - 1)) < length d
             then push_loop ?d h src len (i + 1) else None)"
      using True by (subst push_loop.simps) (simp only: if_True)
    with "1.prems"(1)
    have e: "(if unat i < length src \<and> unat ((h + i) AND (BUFFER_SIZE - 1)) < length d
              then push_loop ?d h src len (i + 1) else None) = Some d'"
      by (simp only:)
    have acc: "unat i < length src \<and> unat ((h + i) AND (BUFFER_SIZE - 1)) < length d"
      by (rule ccontr) (use e in \<open>simp only: if_False option.distinct\<close>)
    have rec: "push_loop ?d h src len (i + 1) = Some d'"
      using e by (simp only: acc if_True simp_thms)
    from "1.IH" [OF True acc rec le]
    have eq: "d' = ring_write ?d (unat h + unat (i + 1)) (drop (unat (i + 1)) (take (unat len) src))"
      and ln: "i + 1 < len \<longrightarrow> unat len \<le> length src"
      by simp_all
    have len: "unat len \<le> length src"
    proof (cases "i + 1 < len")
      case True
      with ln show ?thesis by simp
    next
      case False
      with le have "i + 1 = len" by simp
      with s acc show ?thesis by simp
    qed
    have dr: "drop (unat i) (take (unat len) src) = src ! unat i # drop (Suc (unat i)) (take (unat len) src)"
      using l len by (simp add: Cons_nth_drop_Suc [symmetric])
    show ?thesis
      using eq len by (simp add: s dr unat_add_mask)
  next
    case False
    with "1.prems" have "i = len" by simp
    with "1.prems"(1) show ?thesis by (subst (asm) push_loop.simps) simp
  qed
qed

lemma pop_loop_Some:
  "pop_loop d t dst len i = Some dst' \<Longrightarrow> i \<le> len \<Longrightarrow> unat i \<le> length dst \<Longrightarrow>
   dst' = take (unat i) dst @ ring_read d (unat t + unat i) (unat len - unat i) @ drop (unat len) dst \<and>
   (i < len \<longrightarrow> unat len \<le> length dst)"
proof (induction d t dst len i rule: pop_loop.induct)
  case (1 d t dst len i)
  show ?case
  proof (cases "i < len")
    case True
    then have s: "unat (i + 1) = Suc (unat i)" and l: "unat i < unat len" and le: "i + 1 \<le> len"
      by unat_arith+
    let ?v = "d ! unat ((t + i) AND (BUFFER_SIZE - 1))"
    have "pop_loop d t dst len i =
            (if unat i < length dst \<and> unat ((t + i) AND (BUFFER_SIZE - 1)) < length d
             then pop_loop d t (dst[unat i := ?v]) len (i + 1) else None)"
      using True by (subst pop_loop.simps) (simp only: if_True)
    with "1.prems"(1)
    have e: "(if unat i < length dst \<and> unat ((t + i) AND (BUFFER_SIZE - 1)) < length d
              then pop_loop d t (dst[unat i := ?v]) len (i + 1) else None) = Some dst'"
      by (simp only:)
    have acc: "unat i < length dst \<and> unat ((t + i) AND (BUFFER_SIZE - 1)) < length d"
      by (rule ccontr) (use e in \<open>simp only: if_False option.distinct\<close>)
    have rec: "pop_loop d t (dst[unat i := ?v]) len (i + 1) = Some dst'"
      using e by (simp only: acc if_True simp_thms)
    from acc have b: "unat (i + 1) \<le> length (dst[unat i := ?v])" by (simp add: s)
    from "1.IH" [OF True acc rec le b]
    have eq: "dst' = take (unat (i + 1)) (dst[unat i := ?v]) @
                 ring_read d (unat t + unat (i + 1)) (unat len - unat (i + 1)) @
                 drop (unat len) (dst[unat i := ?v])"
      and ln: "i + 1 < len \<longrightarrow> unat len \<le> length dst"
      by simp_all
    have len: "unat len \<le> length dst"
    proof (cases "i + 1 < len")
      case True
      with ln show ?thesis by simp
    next
      case False
      with le have "i + 1 = len" by simp
      with s acc show ?thesis by simp
    qed
    have rd: "ring_read d (unat t + unat i) (unat len - unat i) =
                ?v # ring_read d (unat t + Suc (unat i)) (unat len - Suc (unat i))"
    proof -
      from l have "[0..<unat len - unat i] = 0 # map Suc [0..<unat len - Suc (unat i)]"
        by (metis Suc_diff_Suc map_Suc_upt upt_conv_Cons zero_less_diff)
      then show ?thesis
        by (simp add: ring_read_def unat_add_mask comp_def)
    qed
    have tk: "take (Suc (unat i)) (dst[unat i := ?v]) = take (unat i) dst @ [?v]"
      using acc by (simp add: take_Suc_conv_app_nth)
    show ?thesis
      using eq len l by (simp add: s rd tk)
  next
    case False
    with "1.prems" have "i = len" by simp
    with "1.prems"(1) show ?thesis by (subst (asm) pop_loop.simps) (simp add: ring_read_def)
  qed
qed

section \<open>Reading and writing along the ring\<close>

lemma ring_write_same:
  "k < length xs \<Longrightarrow> length xs \<le> 1024 \<Longrightarrow> length d = 1024 \<Longrightarrow>
   ring_write d s xs ! ((s + k) mod 1024) = xs ! k"
proof (induction xs arbitrary: d s k)
  case Nil
  then show ?case by simp
next
  case (Cons x xs)
  show ?case
  proof (cases k)
    case 0
    have "ring_write (d[s mod 1024 := x]) (Suc s) xs ! (s mod 1024) = d[s mod 1024 := x] ! (s mod 1024)"
    proof (rule ring_write_other)
      fix j assume "j < length xs"
      with Cons.prems have "0 < Suc j" "Suc j < 1024" by simp_all
      then have "(s + Suc j) mod 1024 \<noteq> s mod 1024" by (rule mod_shift_neq)
      then show "(Suc s + j) mod 1024 \<noteq> s mod 1024" by simp
    qed
    with 0 Cons.prems show ?thesis by simp
  next
    case (Suc k')
    with Cons.prems have "ring_write (d[s mod 1024 := x]) (Suc s) xs ! ((Suc s + k') mod 1024) = xs ! k'"
      by (intro Cons.IH) simp_all
    with Suc show ?thesis by simp
  qed
qed

lemma length_ring_read: "length (ring_read d s n) = n"
  by (simp add: ring_read_def)

lemma ring_read_mod: "ring_read d (s mod 1024) n = ring_read d s n"
  by (simp add: ring_read_def mod_add_left_eq)

lemma ring_read_add: "ring_read d s (n + m) = ring_read d s n @ ring_read d (s + n) m"
proof -
  have "[n..<n + m] = map (\<lambda>k. n + k) [0..<m]"
    using map_add_upt [of n m] by (simp add: add.commute)
  with upt_add_eq_append [of 0 n m] have "[0..<n + m] = [0..<n] @ map (\<lambda>k. n + k) [0..<m]"
    by simp
  then show ?thesis by (simp add: ring_read_def comp_def add.assoc)
qed

lemma take_ring_read: "n \<le> m \<Longrightarrow> take n (ring_read d s m) = ring_read d s n"
  by (simp add: ring_read_def take_map min_def)

lemma drop_ring_read: "n \<le> m \<Longrightarrow> drop n (ring_read d s m) = ring_read d (s + n) (m - n)"
  using ring_read_add [of d s n "m - n"] by (simp add: length_ring_read)

lemma ring_read_write_same:
  "length xs \<le> 1024 \<Longrightarrow> length d = 1024 \<Longrightarrow> ring_read (ring_write d s xs) s (length xs) = xs"
  by (rule nth_equalityI) (simp_all add: ring_read_def ring_write_same)

lemma ring_read_write_before:
  assumes "n + length xs \<le> 1024"
  shows "ring_read (ring_write d (s + n) xs) s n = ring_read d s n"
proof -
  have "ring_write d (s + n) xs ! ((s + k) mod 1024) = d ! ((s + k) mod 1024)" if "k < n" for k
  proof (rule ring_write_other)
    fix j assume "j < length xs"
    with assms that have "0 < n + j - k" "n + j - k < 1024" by simp_all
    then have "(s + k + (n + j - k)) mod 1024 \<noteq> (s + k) mod 1024" by (rule mod_shift_neq)
    moreover from that have "s + k + (n + j - k) = s + n + j" by simp
    ultimately show "(s + n + j) mod 1024 \<noteq> (s + k) mod 1024" by simp
  qed
  then show ?thesis by (simp add: ring_read_def)
qed

lemma ring_write_cong: "s mod 1024 = s' mod 1024 \<Longrightarrow> ring_write d s xs = ring_write d s' xs"
proof (induction xs arbitrary: d s s')
  case Nil
  show ?case by simp
next
  case (Cons x xs)
  have "Suc (s mod 1024) mod 1024 = Suc s mod 1024" "Suc (s' mod 1024) mod 1024 = Suc s' mod 1024"
    by (rule mod_Suc_eq)+
  with Cons.prems have "Suc s mod 1024 = Suc s' mod 1024"
    by simp
  then have "ring_write (d[s mod 1024 := x]) (Suc s) xs = ring_write (d[s mod 1024 := x]) (Suc s') xs"
    by (rule Cons.IH)
  with Cons.prems show ?case by simp
qed

section \<open>Cursor differences modulo the capacity\<close>

lemma mod_free:
  fixes a b n :: int assumes "0 < n"
  shows "(b - a - 1) mod n = n - 1 - (a - b) mod n"
proof -
  have "(b - a - 1) mod n = (n - 1 - (a - b) - n) mod n" by (simp add: algebra_simps)
  also have "\<dots> = (n - 1 - (a - b)) mod n" by (rule minus_mod_self2)
  also have "\<dots> = (n - 1 - (a - b) mod n) mod n" by (simp add: mod_diff_right_eq)
  also have "\<dots> = n - 1 - (a - b) mod n"
    using assms pos_mod_bound [of n "a - b"] pos_mod_sign [of n "a - b"]
    by (intro mod_pos_pos_trivial) linarith+
  finally show ?thesis .
qed

lemma mod_advance_head:
  fixes a b l n :: int assumes "0 \<le> l" "(a - b) mod n + l < n" "0 < n"
  shows "((a + l) mod n - b) mod n = (a - b) mod n + l"
proof -
  have "((a + l) mod n - b) mod n = ((a - b) + l) mod n" by (simp add: mod_diff_left_eq algebra_simps)
  also have "\<dots> = ((a - b) mod n + l) mod n" by (simp add: mod_add_left_eq)
  also have "\<dots> = (a - b) mod n + l"
    using assms pos_mod_sign [of n "a - b"]
    by (intro mod_pos_pos_trivial) linarith+
  finally show ?thesis .
qed

lemma mod_advance_tail:
  fixes a b l n :: int assumes "0 \<le> l" "l \<le> (a - b) mod n" "0 < n"
  shows "(a - (b + l) mod n) mod n = (a - b) mod n - l"
proof -
  have "(a - (b + l) mod n) mod n = ((a - b) - l) mod n" by (simp add: mod_diff_right_eq algebra_simps)
  also have "\<dots> = ((a - b) mod n - l) mod n" by (simp add: mod_diff_left_eq)
  also have "\<dots> = (a - b) mod n - l"
    using assms pos_mod_bound [of n "a - b"]
    by (intro mod_pos_pos_trivial) linarith+
  finally show ?thesis .
qed

section \<open>The two operations, by cases\<close>

lemma uint_BUFFER_SIZE: "uint BUFFER_SIZE = 1024"
  by (simp add: BUFFER_SIZE_def)

lemma unat_BUFFER_SIZE: "unat BUFFER_SIZE = 1024"
  by (simp add: BUFFER_SIZE_def)

lemma occupied_bytes_range: "0 \<le> occupied_bytes rb \<and> occupied_bytes rb \<le> 1023"
  using pos_mod_bound [of 1024 "uint (head rb) - uint (tail rb)"]
        pos_mod_sign [of 1024 "uint (head rb) - uint (tail rb)"]
  by (simp add: occupied_bytes_def uint_BUFFER_SIZE)

lemma free_bytes_eq: "free_bytes rb = 1023 - occupied_bytes rb"
  using mod_free [of 1024 "uint (tail rb)" "uint (head rb)"]
  by (simp add: occupied_bytes_def free_bytes_def uint_BUFFER_SIZE)

lemma pop_available: "uint ((head rb - tail rb) AND (BUFFER_SIZE - 1)) = occupied_bytes rb"
  by (simp add: uint_sub_mask occupied_bytes_def uint_BUFFER_SIZE)

lemma push_available: "uint ((tail rb - head rb - 1) AND (BUFFER_SIZE - 1)) = free_bytes rb"
  by (simp add: uint_free_mask free_bytes_def uint_BUFFER_SIZE)

lemma push_rejects: "(len > (tail rb - head rb - 1) AND (BUFFER_SIZE - 1)) = (free_bytes rb < uint len)"
  by (simp add: word_less_def push_available)

lemma pop_rejects: "(len > (head rb - tail rb) AND (BUFFER_SIZE - 1)) = (occupied_bytes rb < uint len)"
  by (simp add: word_less_def pop_available)

lemma ring_push_fail: "free_bytes rb < uint len \<Longrightarrow> ring_push rb src len = Some (rb, False)"
  by (simp add: ring_push_def Let_def push_rejects)

lemma ring_pop_fail: "occupied_bytes rb < uint len \<Longrightarrow> ring_pop rb dst len = Some (rb, dst, False)"
  by (simp add: ring_pop_def Let_def pop_rejects)

lemma ring_push_ok:
  assumes "uint len \<le> free_bytes rb" "length (data rb) = 1024" "unat len \<le> length src"
  shows "ring_push rb src len =
           Some (rb\<lparr>data := ring_write (data rb) (unat (head rb)) (take (unat len) src),
                    head := (head rb + len) AND (BUFFER_SIZE - 1)\<rparr>, True)"
proof -
  have "push_loop (data rb) (head rb) src len 0 =
          Some (ring_write (data rb) (unat (head rb)) (take (unat len) src))"
    using push_loop_eq [of "data rb" len src 0 "head rb"] assms by simp
  with assms(1) show ?thesis
    by (simp add: ring_push_def Let_def push_rejects)
qed

lemma ring_pop_ok:
  assumes "uint len \<le> occupied_bytes rb" "length (data rb) = 1024" "unat len \<le> length dst"
  shows "ring_pop rb dst len =
           Some (rb\<lparr>tail := (tail rb + len) AND (BUFFER_SIZE - 1)\<rparr>,
                 ring_read (data rb) (unat (tail rb)) (unat len) @ drop (unat len) dst, True)"
proof -
  have "pop_loop (data rb) (tail rb) dst len 0 =
          Some (ring_read (data rb) (unat (tail rb)) (unat len) @ drop (unat len) dst)"
    using pop_loop_eq [of "data rb" len dst 0 "tail rb"] assms by simp
  with assms(1) show ?thesis
    by (simp add: ring_pop_def Let_def pop_rejects)
qed

lemma ring_push_False: "ring_push rb src len = Some (rb', False) \<Longrightarrow> rb' = rb \<and> free_bytes rb < uint len"
  by (auto simp: ring_push_def Let_def push_rejects split: if_splits option.splits)

lemma ring_pop_False:
  "ring_pop rb dst len = Some (rb', dst', False) \<Longrightarrow> rb' = rb \<and> dst' = dst \<and> occupied_bytes rb < uint len"
  by (auto simp: ring_pop_def Let_def pop_rejects split: if_splits option.splits)

lemma ring_push_True:
  assumes "ring_push rb src len = Some (rb', True)"
  shows "uint len \<le> free_bytes rb \<and> (len \<noteq> 0 \<longrightarrow> unat len \<le> length src) \<and>
         rb' = rb\<lparr>data := ring_write (data rb) (unat (head rb)) (take (unat len) src),
                  head := (head rb + len) AND (BUFFER_SIZE - 1)\<rparr>"
proof -
  from assms have fr: "uint len \<le> free_bytes rb"
    by (auto simp: ring_push_def Let_def push_rejects split: if_splits)
  with assms obtain d where lp: "push_loop (data rb) (head rb) src len 0 = Some d"
    and rb': "rb' = rb\<lparr>data := d, head := (head rb + len) AND (BUFFER_SIZE - 1)\<rparr>"
    by (auto simp: ring_push_def Let_def push_rejects split: if_splits option.splits)
  from push_loop_Some [OF lp] have "d = ring_write (data rb) (unat (head rb)) (take (unat len) src)"
    and "0 < len \<longrightarrow> unat len \<le> length src"
    by simp_all
  with fr rb' show ?thesis by (simp add: word_neq_0_conv)
qed

lemma ring_pop_True:
  assumes "ring_pop rb dst len = Some (rb', dst', True)"
  shows "uint len \<le> occupied_bytes rb \<and> (len \<noteq> 0 \<longrightarrow> unat len \<le> length dst) \<and>
         rb' = rb\<lparr>tail := (tail rb + len) AND (BUFFER_SIZE - 1)\<rparr> \<and>
         dst' = ring_read (data rb) (unat (tail rb)) (unat len) @ drop (unat len) dst"
proof -
  from assms have oc: "uint len \<le> occupied_bytes rb"
    by (auto simp: ring_pop_def Let_def pop_rejects split: if_splits)
  with assms have lp: "pop_loop (data rb) (tail rb) dst len 0 = Some dst'"
    and rb': "rb' = rb\<lparr>tail := (tail rb + len) AND (BUFFER_SIZE - 1)\<rparr>"
    by (auto simp: ring_pop_def Let_def pop_rejects split: if_splits option.splits)
  from pop_loop_Some [OF lp]
  have "dst' = ring_read (data rb) (unat (tail rb)) (unat len) @ drop (unat len) dst"
    and "0 < len \<longrightarrow> unat len \<le> length dst"
    by simp_all
  with oc rb' show ?thesis by (simp add: word_neq_0_conv)
qed

lemma mask_less: "(w::size_t) AND (BUFFER_SIZE - 1) < BUFFER_SIZE"
  using pos_mod_bound [of 1024 "uint w"]
  by (simp add: word_less_def uint_mask uint_BUFFER_SIZE)

lemma mask_id: "(w::size_t) < BUFFER_SIZE \<Longrightarrow> w AND (BUFFER_SIZE - 1) = w"
  by (simp add: word_uint_eq_iff uint_mask word_less_def uint_BUFFER_SIZE)

lemma occupied_bytes_push:
  assumes "uint len \<le> free_bytes rb"
  shows "occupied_bytes (rb\<lparr>data := d, head := (head rb + len) AND (BUFFER_SIZE - 1)\<rparr>) =
           occupied_bytes rb + uint len"
  using assms mod_advance_head [of "uint len" "uint (head rb)" "uint (tail rb)" 1024]
  by (simp add: occupied_bytes_def free_bytes_eq uint_add_mask uint_BUFFER_SIZE)

lemma occupied_bytes_pop:
  assumes "uint len \<le> occupied_bytes rb"
  shows "occupied_bytes (rb\<lparr>tail := (tail rb + len) AND (BUFFER_SIZE - 1)\<rparr>) =
           occupied_bytes rb - uint len"
  using assms mod_advance_tail [of "uint len" "uint (head rb)" "uint (tail rb)" 1024]
  by (simp add: occupied_bytes_def uint_add_mask uint_BUFFER_SIZE)

lemma reachable_inv:
  "reachable rb \<Longrightarrow> length (data rb) = 1024 \<and> head rb < BUFFER_SIZE \<and> tail rb < BUFFER_SIZE"
proof (induction rule: reachable.induct)
  case (reachable_init d)
  then show ?case by (simp add: unat_BUFFER_SIZE BUFFER_SIZE_def)
next
  case (reachable_push rb src len rb' ok)
  show ?case
  proof (cases ok)
    case True
    with reachable_push.hyps(2) ring_push_True [of rb src len rb'] reachable_push.IH
    show ?thesis by (simp add: mask_less length_ring_write)
  next
    case False
    with reachable_push.hyps(2) ring_push_False [of rb src len rb'] reachable_push.IH
    show ?thesis by simp
  qed
next
  case (reachable_pop rb dst len rb' dst' ok)
  show ?case
  proof (cases ok)
    case True
    with reachable_pop.hyps(2) ring_pop_True [of rb dst len rb' dst'] reachable_pop.IH
    show ?thesis by (simp add: mask_less)
  next
    case False
    with reachable_pop.hyps(2) ring_pop_False [of rb dst len rb' dst'] reachable_pop.IH
    show ?thesis by simp
  qed
qed

section \<open>The unread bytes\<close>

lemma head_position:
  "(unat (tail rb) + nat (occupied_bytes rb)) mod 1024 = unat (head rb) mod 1024"
proof -
  have "int ((unat (tail rb) + nat (occupied_bytes rb)) mod 1024) =
          (uint (tail rb) + occupied_bytes rb) mod 1024"
    using occupied_bytes_range [of rb] by (simp add: zmod_int)
  also have "\<dots> = uint (head rb) mod 1024"
    by (simp add: occupied_bytes_def uint_BUFFER_SIZE mod_add_right_eq)
  also have "\<dots> = int (unat (head rb) mod 1024)"
    by (simp add: zmod_int)
  finally show ?thesis by (simp only: of_nat_eq_iff)
qed

lemma contents_push:
  assumes "uint len \<le> free_bytes rb" and "length (data rb) = 1024" and "unat len \<le> length src"
  shows "contents (rb\<lparr>data := ring_write (data rb) (unat (head rb)) (take (unat len) src),
                      head := (head rb + len) AND (BUFFER_SIZE - 1)\<rparr>) =
           contents rb @ take (unat len) src"
proof -
  let ?xs = "take (unat len) src" and ?n = "nat (occupied_bytes rb)" and ?t = "unat (tail rb)"
  let ?d = "ring_write (data rb) (?t + ?n) ?xs"
  from assms(3) have lx: "length ?xs = unat len" by simp
  have "int (unat len) = uint len" by simp
  with assms(1) occupied_bytes_range [of rb] have fit: "?n + length ?xs \<le> 1024"
    unfolding lx free_bytes_eq by linarith
  have wr: "ring_write (data rb) (unat (head rb)) ?xs = ?d"
    by (rule ring_write_cong) (simp add: head_position)
  have "nat (occupied_bytes rb + uint len) = ?n + nat (uint len)"
    using occupied_bytes_range [of rb] by (intro nat_add_distrib) simp_all
  then have "nat (occupied_bytes rb + uint len) = ?n + length ?xs"
    unfolding lx by simp
  then have "contents (rb\<lparr>data := ring_write (data rb) (unat (head rb)) ?xs,
                        head := (head rb + len) AND (BUFFER_SIZE - 1)\<rparr>) =
          ring_read ?d ?t (?n + length ?xs)"
    using assms(1) by (simp add: contents_def occupied_bytes_push wr)
  also have "\<dots> = ring_read ?d ?t ?n @ ring_read ?d (?t + ?n) (length ?xs)"
    by (rule ring_read_add)
  also have "ring_read ?d ?t ?n = ring_read (data rb) ?t ?n"
    using fit by (rule ring_read_write_before)
  also have "ring_read ?d (?t + ?n) (length ?xs) = ?xs"
    using fit assms(2) by (intro ring_read_write_same) simp_all
  finally show ?thesis by (simp add: contents_def)
qed

lemma contents_pop:
  assumes "uint len \<le> occupied_bytes rb"
  shows "contents (rb\<lparr>tail := (tail rb + len) AND (BUFFER_SIZE - 1)\<rparr>) = drop (unat len) (contents rb)"
    and "ring_read (data rb) (unat (tail rb)) (unat len) = take (unat len) (contents rb)"
proof -
  have "int (unat len) = uint len" by simp
  with assms have le: "unat len \<le> nat (occupied_bytes rb)"
    by linarith
  have "nat (occupied_bytes rb - uint len) = nat (occupied_bytes rb) - nat (uint len)"
    using occupied_bytes_range [of rb] by (intro nat_diff_distrib') simp_all
  then have "nat (occupied_bytes rb - uint len) = nat (occupied_bytes rb) - unat len"
    by simp
  then have "contents (rb\<lparr>tail := (tail rb + len) AND (BUFFER_SIZE - 1)\<rparr>) =
          ring_read (data rb) ((unat (tail rb) + unat len) mod 1024) (nat (occupied_bytes rb) - unat len)"
    using assms by (simp add: contents_def occupied_bytes_pop unat_add_mask)
  also have "\<dots> = ring_read (data rb) (unat (tail rb) + unat len) (nat (occupied_bytes rb) - unat len)"
    by (rule ring_read_mod)
  also have "\<dots> = drop (unat len) (contents rb)"
    using le by (simp add: contents_def drop_ring_read)
  finally show "contents (rb\<lparr>tail := (tail rb + len) AND (BUFFER_SIZE - 1)\<rparr>) =
                  drop (unat len) (contents rb)" .
  show "ring_read (data rb) (unat (tail rb)) (unat len) = take (unat len) (contents rb)"
    using le by (simp add: contents_def take_ring_read)
qed

lemma run_fifo:
  "length (data rb) = 1024 \<Longrightarrow> fits rb cs \<Longrightarrow>
   \<exists>rb' out. run rb cs = Some (rb', out) \<and> contents rb @ supplied cs = out @ contents rb'"
proof (induction cs arbitrary: rb)
  case Nil
  then show ?case by simp
next
  case (Cons c cs)
  show ?case
  proof (cases c)
    case (Push src len)
    let ?rb = "rb\<lparr>data := ring_write (data rb) (unat (head rb)) (take (unat len) src),
                   head := (head rb + len) AND (BUFFER_SIZE - 1)\<rparr>"
    from Cons.prems(2) Push have fr: "uint len \<le> free_bytes rb" and sz: "unat len \<le> length src"
      by simp_all
    with Cons.prems(1) have ok: "ring_push rb src len = Some (?rb, True)"
      by (intro ring_push_ok)
    with Cons.prems(2) Push have "fits ?rb cs" by simp
    moreover from Cons.prems(1) have "length (data ?rb) = 1024" by (simp add: length_ring_write)
    ultimately obtain rb' out where r: "run ?rb cs = Some (rb', out)"
      and c: "contents ?rb @ supplied cs = out @ contents rb'"
      using Cons.IH [of ?rb] by blast
    from fr Cons.prems(1) sz have "contents ?rb = contents rb @ take (unat len) src"
      by (rule contents_push)
    with r c ok Push show ?thesis by simp
  next
    case (Pop dst len)
    let ?rb = "rb\<lparr>tail := (tail rb + len) AND (BUFFER_SIZE - 1)\<rparr>"
    let ?dst = "ring_read (data rb) (unat (tail rb)) (unat len) @ drop (unat len) dst"
    from Cons.prems(2) Pop have oc: "uint len \<le> occupied_bytes rb" and sz: "unat len \<le> length dst"
      by simp_all
    with Cons.prems(1) have ok: "ring_pop rb dst len = Some (?rb, ?dst, True)"
      by (intro ring_pop_ok)
    with Cons.prems(2) Pop have "fits ?rb cs" by simp
    moreover from Cons.prems(1) have "length (data ?rb) = 1024" by simp
    ultimately obtain rb' out where r: "run ?rb cs = Some (rb', out)"
      and c: "contents ?rb @ supplied cs = out @ contents rb'"
      using Cons.IH [of ?rb] by blast
    have "take (unat len) ?dst = ring_read (data rb) (unat (tail rb)) (unat len)"
      by (simp add: length_ring_read)
    also have "\<dots> = take (unat len) (contents rb)"
      using oc by (rule contents_pop(2))
    finally have "take (unat len) ?dst = take (unat len) (contents rb)" .
    moreover have "contents ?rb = drop (unat len) (contents rb)"
      using oc by (rule contents_pop(1))
    ultimately have "contents rb @ supplied cs = take (unat len) ?dst @ out @ contents rb'"
      using c by (metis append.assoc append_take_drop_id)
    with r ok Pop show ?thesis by simp
  qed
qed

lemma occupied_bytes_empty: "head rb = tail rb \<Longrightarrow> occupied_bytes rb = 0"
  by (simp add: occupied_bytes_def)

section \<open>The claims\<close>

text \<open>
  Claim C1. Start from a buffer with both cursors at 0 and any storage contents, and run any
  sequence of pushes and pops in which every push asks for no more than the free bytes and every
  pop for no more than the occupied bytes at the time of the call (and every caller buffer holds
  the \<open>len\<close> bytes the call names). Then every call is carried out, and the bytes the pops
  returned, concatenated, are a prefix of the bytes supplied to the pushes, concatenated; what
  is left over is exactly the unread contents of the final buffer. The sequence may be of any
  length, so the cursors may wrap around the end of the array any number of times.
\<close>

theorem fifo_order:
  assumes "length d = unat BUFFER_SIZE" and "fits \<lparr>data = d, head = 0, tail = 0\<rparr> cs"
  shows "\<exists>rb' out. run \<lparr>data = d, head = 0, tail = 0\<rparr> cs = Some (rb', out) \<and>
                   prefix out (supplied cs) \<and> supplied cs = out @ contents rb'"
proof -
  let ?rb = "\<lparr>data = d, head = 0, tail = 0\<rparr>"
  from assms(1) have "length (data ?rb) = 1024" by (simp add: unat_BUFFER_SIZE)
  from run_fifo [OF this assms(2)] obtain rb' out
    where "run ?rb cs = Some (rb', out)" and "contents ?rb @ supplied cs = out @ contents rb'"
    by blast
  moreover have "contents ?rb = []" by (simp add: contents_def occupied_bytes_def ring_read_def)
  ultimately show ?thesis by (auto simp: prefix_def)
qed

theorem fifo_order_witness:
  "length (replicate 1024 (0 :: u8)) = unat BUFFER_SIZE \<and>
   fits \<lparr>data = replicate 1024 0, head = 0, tail = 0\<rparr>
     [Push [1, 2, 3] 3, Pop [0, 0] 2, Push [4, 5, 6] 3, Pop [0, 0, 0, 0] 3] \<and>
   run \<lparr>data = replicate 1024 0, head = 0, tail = 0\<rparr>
     [Push [1, 2, 3] 3, Pop [0, 0] 2, Push [4, 5, 6] 3, Pop [0, 0, 0, 0] 3] =
     Some (six_bytes\<lparr>tail := 5\<rparr>, [1, 2, 3, 4, 5]) \<and>
   supplied [Push [1, 2, 3] 3, Pop [0, 0] 2, Push [4, 5, 6] 3, Pop [0, 0, 0, 0] 3] = [1, 2, 3, 4, 5, 6] \<and>
   prefix [1, 2, 3, 4, 5] [1, 2, 3, 4, 5, 6 :: u8] \<and>
   contents (six_bytes\<lparr>tail := 5\<rparr>) = [6] \<and>
   fits \<lparr>data = replicate 1024 0, head = 0, tail = 0\<rparr>
     [Push (replicate 1022 9) 1022, Pop (replicate 1022 0) 1022, Push [1, 2, 3, 4] 4, Pop [0, 0, 0, 0] 4] \<and>
   (\<exists>rb'. run \<lparr>data = replicate 1024 0, head = 0, tail = 0\<rparr>
       [Push (replicate 1022 9) 1022, Pop (replicate 1022 0) 1022, Push [1, 2, 3, 4] 4, Pop [0, 0, 0, 0] 4] =
       Some (rb', replicate 1022 9 @ [1, 2, 3, 4]) \<and> head rb' = 2 \<and> tail rb' = 2)"
proof -
  let ?cs = "[Push [1, 2, 3] 3, Pop [0, 0] 2, Push [4, 5, 6] 3, Pop [0, 0, 0, 0] 3]"
  let ?ws = "[Push (replicate 1022 9) 1022, Pop (replicate 1022 0) 1022, Push [1, 2, 3, 4] 4,
              Pop [0, 0, 0, 0] 4]"
  let ?rb = "\<lparr>data = replicate 1024 (0 :: u8), head = 0 :: size_t, tail = 0 :: size_t\<rparr>"
  have l: "length (replicate 1024 (0 :: u8)) = unat BUFFER_SIZE"
    by (simp add: BUFFER_SIZE_def)
  have f: "fits ?rb ?cs"
    by (simp add: ring_push_def ring_pop_def BUFFER_SIZE_def push_loop.simps pop_loop.simps
                  free_bytes_def occupied_bytes_def)
  have r: "run ?rb ?cs = Some (six_bytes\<lparr>tail := 5\<rparr>, [1, 2, 3, 4, 5])"
    by (simp add: ring_push_def ring_pop_def BUFFER_SIZE_def push_loop.simps pop_loop.simps
                  six_bytes_def)
  have s: "supplied ?cs = [1, 2, 3, 4, 5, 6]"
    by simp
  from fifo_order [OF l f] r s
  have small: "prefix [1, 2, 3, 4, 5] [1, 2, 3, 4, 5, 6 :: u8] \<and> contents (six_bytes\<lparr>tail := 5\<rparr>) = [6]"
    by simp
  have wf: "fits ?rb ?ws"
    by (simp add: ring_push_ok ring_pop_ok free_bytes_def occupied_bytes_def BUFFER_SIZE_def
                  length_ring_write)
  from fifo_order [OF l wf] obtain rb' out where wr: "run ?rb ?ws = Some (rb', out)"
    and ws: "supplied ?ws = out @ contents rb'"
    by blast
  from wr have c: "head rb' = 2 \<and> tail rb' = 2"
    by (auto simp add: ring_push_ok ring_pop_ok free_bytes_def occupied_bytes_def BUFFER_SIZE_def
                       length_ring_write)
  then have "contents rb' = []"
    by (simp add: contents_def occupied_bytes_def ring_read_def)
  with ws have "out = replicate 1022 9 @ [1, 2, 3, 4]"
    by simp
  with wr c have "\<exists>rb'. run ?rb ?ws = Some (rb', replicate 1022 9 @ [1, 2, 3, 4]) \<and>
                        head rb' = 2 \<and> tail rb' = 2"
    by simp
  with l f r s small wf show ?thesis by simp
qed

text \<open>
  Claim C2. A call of \<open>ring_push\<close> or \<open>ring_pop\<close> that returns false changes nothing: the
  buffer (both cursors and the whole storage array) is the one before the call, a failing pop
  leaves the destination as it was, and a failing push fails in the same way whatever the
  source holds, so it has copied nothing from it.
\<close>

theorem failure_is_noop:
  "(ring_push rb src len = Some (rb', False) \<longrightarrow> rb' = rb \<and> ring_push rb src2 len = Some (rb, False)) \<and>
   (ring_pop rb dst len = Some (rb'', dst', False) \<longrightarrow> rb'' = rb \<and> dst' = dst)"
  using ring_push_False [of rb src len rb'] ring_pop_False [of rb dst len rb'' dst']
  by (auto simp: ring_push_fail)

theorem failure_is_noop_witness:
  "ring_push three_bytes [7, 7] 1021 = Some (three_bytes, False) \<and>
   ring_push three_bytes [] 1021 = Some (three_bytes, False) \<and>
   ring_pop three_bytes [9, 9, 9, 9] 4 = Some (three_bytes, [9, 9, 9, 9], False)"
proof -
  have p: "ring_push three_bytes [7, 7] 1021 = Some (three_bytes, False)"
    by (simp add: ring_push_def three_bytes_def BUFFER_SIZE_def)
  have q: "ring_pop three_bytes [9, 9, 9, 9] 4 = Some (three_bytes, [9, 9, 9, 9], False)"
    by (simp add: ring_pop_def three_bytes_def BUFFER_SIZE_def)
  from failure_is_noop [where rb = three_bytes and src = "[7, 7]" and len = 1021 and rb' = three_bytes
                          and ?src2.0 = "[]" and dst = "[9, 9, 9, 9]" and rb'' = three_bytes
                          and dst' = "[9, 9, 9, 9]"] p q
  show ?thesis by simp
qed

text \<open>
  Claim C4. On a buffer with both cursors at 0, a push of \<open>BUFFER_SIZE - 1\<close> bytes succeeds and
  a push of \<open>BUFFER_SIZE\<close> bytes fails. In the state after the successful push every push of at
  least one byte fails and leaves that state as it is, so pushes keep failing as long as nothing
  is popped; once a pop has taken \<open>k\<close> bytes, a push succeeds exactly when it asks for at most
  \<open>k\<close> bytes.
\<close>

theorem capacity_is_size_minus_one:
  assumes "head rb = 0" and "tail rb = 0" and "length (data rb) = unat BUFFER_SIZE"
    and "unat (BUFFER_SIZE - 1) \<le> length src"
  shows "\<exists>rb1. ring_push rb src (BUFFER_SIZE - 1) = Some (rb1, True) \<and>
           ring_push rb src2 BUFFER_SIZE = Some (rb, False) \<and>
           (\<forall>src3 len. 1 \<le> len \<longrightarrow> ring_push rb1 src3 len = Some (rb1, False)) \<and>
           (\<forall>dst k. 1 \<le> k \<and> k \<le> BUFFER_SIZE - 1 \<and> unat k \<le> length dst \<longrightarrow>
              (\<exists>rb2 dst'. ring_pop rb1 dst k = Some (rb2, dst', True) \<and>
                 (\<forall>src4 len4. unat len4 \<le> length src4 \<longrightarrow>
                    (\<exists>rb3. ring_push rb2 src4 len4 = Some (rb3, True)) = (len4 \<le> k))))"
proof -
  let ?rb1 = "rb\<lparr>data := ring_write (data rb) (unat (head rb)) (take (unat (BUFFER_SIZE - 1)) src),
                  head := (head rb + (BUFFER_SIZE - 1)) AND (BUFFER_SIZE - 1)\<rparr>"
  from assms(3) have ld: "length (data rb) = 1024" by (simp add: unat_BUFFER_SIZE)
  have u: "uint (BUFFER_SIZE - 1) = 1023" "uint BUFFER_SIZE = 1024"
    by (simp_all add: BUFFER_SIZE_def)
  from assms(1,2) have oc: "occupied_bytes rb = 0" by (simp add: occupied_bytes_empty)
  then have fr: "free_bytes rb = 1023" by (simp add: free_bytes_eq)
  have a: "ring_push rb src (BUFFER_SIZE - 1) = Some (?rb1, True)"
    using fr ld assms(4) by (intro ring_push_ok) (simp_all add: u)
  have b: "ring_push rb src2 BUFFER_SIZE = Some (rb, False)"
    using fr by (intro ring_push_fail) (simp add: u)
  have oc1: "occupied_bytes ?rb1 = 1023"
    using fr oc by (simp add: occupied_bytes_push u)
  then have fr1: "free_bytes ?rb1 = 0" by (simp add: free_bytes_eq)
  have ld1: "length (data ?rb1) = 1024" using ld by (simp add: length_ring_write)
  have c: "ring_push ?rb1 src3 len = Some (?rb1, False)" if "1 \<le> len" for src3 len
  proof (rule ring_push_fail)
    from that have "0 < uint len" by (simp add: word_le_def)
    with fr1 show "free_bytes ?rb1 < uint len" by simp
  qed
  have d: "\<exists>rb2 dst'. ring_pop ?rb1 dst k = Some (rb2, dst', True) \<and>
                 (\<forall>src4 len4. unat len4 \<le> length src4 \<longrightarrow>
                    (\<exists>rb3. ring_push rb2 src4 len4 = Some (rb3, True)) = (len4 \<le> k))"
    if k: "k \<le> BUFFER_SIZE - 1" "unat k \<le> length dst" for dst k
  proof -
    let ?rb2 = "?rb1\<lparr>tail := (tail ?rb1 + k) AND (BUFFER_SIZE - 1)\<rparr>"
    from k(1) have kk: "uint k \<le> occupied_bytes ?rb1"
      unfolding oc1 by (simp add: word_le_def u)
    with ld1 k(2) have pop: "ring_pop ?rb1 dst k =
        Some (?rb2, ring_read (data ?rb1) (unat (tail ?rb1)) (unat k) @ drop (unat k) dst, True)"
      by (intro ring_pop_ok)
    from kk have "occupied_bytes ?rb2 = 1023 - uint k"
      using occupied_bytes_pop [of k ?rb1] oc1 by simp
    then have fr2: "free_bytes ?rb2 = uint k" by (simp add: free_bytes_eq)
    have ld2: "length (data ?rb2) = 1024" using ld1 by simp
    have "(\<exists>rb3. ring_push ?rb2 src4 len4 = Some (rb3, True)) = (len4 \<le> k)"
      if sz: "unat len4 \<le> length src4" for src4 len4
    proof (cases "len4 \<le> k")
      case True
      then have "uint len4 \<le> free_bytes ?rb2" unfolding fr2 by (simp add: word_le_def)
      from ring_push_ok [OF this ld2 sz] True show ?thesis by blast
    next
      case False
      then have "free_bytes ?rb2 < uint len4" unfolding fr2 by (simp add: word_le_def)
      from ring_push_fail [OF this] False show ?thesis by simp
    qed
    with pop show ?thesis by blast
  qed
  from a b c d show ?thesis by blast
qed

theorem capacity_is_size_minus_one_witness:
  "head init_buffer = 0 \<and> tail init_buffer = 0 \<and> length (data init_buffer) = unat BUFFER_SIZE \<and>
   unat (BUFFER_SIZE - 1) \<le> length (replicate 1024 (170 :: u8)) \<and>
   (\<exists>rb1. ring_push init_buffer (replicate 1024 170) (BUFFER_SIZE - 1) = Some (rb1, True) \<and>
      ring_push init_buffer (replicate 1024 170) BUFFER_SIZE = Some (init_buffer, False) \<and>
      ring_push rb1 (replicate 1024 170) 1 = Some (rb1, False) \<and>
      (\<exists>rb2 dst' rb3. ring_pop rb1 [0] 1 = Some (rb2, dst', True) \<and>
         ring_push rb2 (replicate 1024 170) 1 = Some (rb3, True)))"
proof -
  let ?src = "replicate 1024 (170 :: u8)"
  have h: "head init_buffer = 0" and t: "tail init_buffer = 0"
    and l: "length (data init_buffer) = unat BUFFER_SIZE"
    and s: "unat (BUFFER_SIZE - 1) \<le> length ?src"
    by (simp_all add: init_buffer_def BUFFER_SIZE_def)
  from capacity_is_size_minus_one [OF h t l s, where ?src2.0 = ?src] obtain rb1
    where a: "ring_push init_buffer ?src (BUFFER_SIZE - 1) = Some (rb1, True)"
      and b: "ring_push init_buffer ?src BUFFER_SIZE = Some (init_buffer, False)"
      and c: "\<forall>src3 len. 1 \<le> len \<longrightarrow> ring_push rb1 src3 len = Some (rb1, False)"
      and d: "\<forall>dst k. 1 \<le> k \<and> k \<le> BUFFER_SIZE - 1 \<and> unat k \<le> length dst \<longrightarrow>
              (\<exists>rb2 dst'. ring_pop rb1 dst k = Some (rb2, dst', True) \<and>
                 (\<forall>src4 len4. unat len4 \<le> length src4 \<longrightarrow>
                    (\<exists>rb3. ring_push rb2 src4 len4 = Some (rb3, True)) = (len4 \<le> k)))"
    by blast
  from c have c1: "ring_push rb1 ?src 1 = Some (rb1, False)"
    by simp
  have "(1 :: size_t) \<le> 1 \<and> 1 \<le> BUFFER_SIZE - 1 \<and> unat (1 :: size_t) \<le> length [0 :: u8]"
    by (simp add: BUFFER_SIZE_def)
  with d obtain rb2 dst' where p: "ring_pop rb1 [0] 1 = Some (rb2, dst', True)"
    and e: "\<forall>src4 len4. unat len4 \<le> length src4 \<longrightarrow>
              (\<exists>rb3. ring_push rb2 src4 len4 = Some (rb3, True)) = (len4 \<le> 1)"
    by blast
  have "unat (1 :: size_t) \<le> length ?src" by simp
  with e have "(\<exists>rb3. ring_push rb2 ?src 1 = Some (rb3, True)) = ((1 :: size_t) \<le> 1)"
    by blast
  then obtain rb3 where "ring_push rb2 ?src 1 = Some (rb3, True)"
    by auto
  with a b c1 p h t l s show ?thesis by blast
qed

text \<open>
  Claim C5. In every state a push or a pop of more than \<open>BUFFER_SIZE - 1\<close> bytes returns false
  and changes nothing; its result is the very result of any other failing call in that state
  (one that asks for more than the free, or the occupied, bytes of the moment), so the caller
  cannot tell the permanent failure from the transient one.
\<close>

theorem oversized_request_fails:
  assumes "uint BUFFER_SIZE - 1 < uint len"
  shows "ring_push rb src len = Some (rb, False) \<and> ring_pop rb dst len = Some (rb, dst, False) \<and>
         (free_bytes rb < uint len2 \<longrightarrow> ring_push rb src len2 = ring_push rb src len) \<and>
         (occupied_bytes rb < uint len2 \<longrightarrow> ring_pop rb dst len2 = ring_pop rb dst len)"
proof -
  from assms occupied_bytes_range [of rb] have "free_bytes rb < uint len" "occupied_bytes rb < uint len"
    by (simp_all add: free_bytes_eq uint_BUFFER_SIZE)
  then show ?thesis by (simp add: ring_push_fail ring_pop_fail)
qed

theorem oversized_request_fails_witness:
  "uint BUFFER_SIZE - 1 < uint (5000 :: size_t) \<and>
   free_bytes three_bytes < uint (1021 :: size_t) \<and>
   occupied_bytes three_bytes < uint (4 :: size_t) \<and>
   ring_push three_bytes [] 5000 = Some (three_bytes, False) \<and>
   ring_pop three_bytes [] 5000 = Some (three_bytes, [], False) \<and>
   ring_push three_bytes [] 1021 = ring_push three_bytes [] 5000 \<and>
   ring_pop three_bytes [] 4 = ring_pop three_bytes [] 5000"
proof -
  have h: "uint BUFFER_SIZE - 1 < uint (5000 :: size_t)"
    by (simp add: BUFFER_SIZE_def)
  have f: "free_bytes three_bytes < uint (1021 :: size_t)"
    by (simp add: free_bytes_def three_bytes_def BUFFER_SIZE_def)
  have c: "occupied_bytes three_bytes < uint (4 :: size_t)"
    by (simp add: occupied_bytes_def three_bytes_def BUFFER_SIZE_def)
  from oversized_request_fails [OF h, where rb = three_bytes and ?len2.0 = 1021 and src = "[]" and dst = "[]"] f c
  have "ring_push three_bytes [] 5000 = Some (three_bytes, False) \<and>
        ring_pop three_bytes [] 5000 = Some (three_bytes, [], False) \<and>
        ring_push three_bytes [] 1021 = ring_push three_bytes [] 5000 \<and>
        ring_pop three_bytes [] 1021 = ring_pop three_bytes [] 5000"
    by simp
  moreover from oversized_request_fails [OF h, where rb = three_bytes and ?len2.0 = 4 and src = "[]" and dst = "[]"] c
  have "ring_pop three_bytes [] 4 = ring_pop three_bytes [] 5000"
    by simp
  ultimately show ?thesis using h f c by simp
qed

text \<open>
  Claim C6, amended. On an empty buffer (\<open>head = tail\<close>, at any position), after a successful
  push of \<open>len\<close> bytes the pop of \<open>len\<close> bytes succeeds and returns exactly the bytes pushed,
  leaves the rest of the destination alone and leaves the buffer empty again. Nothing in the
  statement depends on the position of the cursors, so the range may cross the end of the array.
\<close>

theorem push_pop_roundtrip:
  assumes "head rb = tail rb" and "length (data rb) = unat BUFFER_SIZE"
    and "ring_push rb src len = Some (rb1, True)" and "unat len \<le> length dst"
  shows "\<exists>rb2 dst'. ring_pop rb1 dst len = Some (rb2, dst', True) \<and>
           take (unat len) dst' = take (unat len) src \<and>
           drop (unat len) dst' = drop (unat len) dst \<and>
           head rb2 = tail rb2"
proof -
  let ?xs = "take (unat len) src"
  let ?rb1 = "rb\<lparr>data := ring_write (data rb) (unat (head rb)) ?xs,
                  head := (head rb + len) AND (BUFFER_SIZE - 1)\<rparr>"
  let ?rb2 = "?rb1\<lparr>tail := (tail ?rb1 + len) AND (BUFFER_SIZE - 1)\<rparr>"
  let ?out = "ring_read (data ?rb1) (unat (tail ?rb1)) (unat len)"
  from ring_push_True [OF assms(3)]
  have fr: "uint len \<le> free_bytes rb" and sz: "len \<noteq> 0 \<longrightarrow> unat len \<le> length src"
    and rb1: "rb1 = ?rb1"
    by simp_all
  from assms(2) have ld: "length (data rb) = 1024" by (simp add: unat_BUFFER_SIZE)
  from assms(1) have em: "occupied_bytes rb = 0" by (rule occupied_bytes_empty)
  have lx: "length ?xs = unat len"
  proof (cases "len = 0")
    case True
    then show ?thesis by simp
  next
    case False
    with sz show ?thesis by simp
  qed
  have oc: "uint len \<le> occupied_bytes ?rb1"
    using fr em by (simp add: occupied_bytes_push)
  have "length (data ?rb1) = 1024" using ld by (simp add: length_ring_write)
  with oc assms(4) have pop: "ring_pop ?rb1 dst len = Some (?rb2, ?out @ drop (unat len) dst, True)"
    by (intro ring_pop_ok)
  have "contents ?rb1 = contents (rb\<lparr>data := ring_write (data rb) (unat (head rb)) (take (unat len) ?xs),
                                       head := (head rb + len) AND (BUFFER_SIZE - 1)\<rparr>)"
    by simp
  also have "\<dots> = contents rb @ take (unat len) ?xs"
    using fr ld lx by (intro contents_push) simp_all
  also have "\<dots> = ?xs"
    using em by (simp add: contents_def ring_read_def)
  finally have "contents ?rb1 = ?xs" .
  with contents_pop(2) [OF oc] have out: "?out = ?xs" by simp
  have split: "take n (xs @ ys) = xs \<and> drop n (xs @ ys) = ys" if "length xs = n"
    for n and xs ys :: "u8 list"
    using that by simp
  from split [OF lx, of "drop (unat len) dst"]
  have "take (unat len) (?out @ drop (unat len) dst) = ?xs"
    and "drop (unat len) (?out @ drop (unat len) dst) = drop (unat len) dst"
    unfolding out by blast+
  moreover have "head ?rb2 = tail ?rb2"
    using assms(1) by simp
  ultimately show ?thesis using pop rb1 by blast
qed

theorem push_pop_roundtrip_witness:
  "head near_end = tail near_end \<and> length (data near_end) = unat BUFFER_SIZE \<and>
   ring_push near_end [1, 2, 3, 4] 4 =
     Some (\<lparr>data = (replicate 1024 0)[1022 := 1, 1023 := 2, 0 := 3, 1 := 4], head = 2, tail = 1022\<rparr>, True) \<and>
   ring_pop \<lparr>data = (replicate 1024 0)[1022 := 1, 1023 := 2, 0 := 3, 1 := 4], head = 2, tail = 1022\<rparr>
       [0, 0, 0, 0, 9] 4 =
     Some (\<lparr>data = (replicate 1024 0)[1022 := 1, 1023 := 2, 0 := 3, 1 := 4], head = 2, tail = 2\<rparr>,
           [1, 2, 3, 4, 9], True)"
proof -
  let ?rb = "\<lparr>data = (replicate 1024 0)[1022 := 1, 1023 := 2, 0 := 3, 1 := 4], head = 2, tail = 1022 :: size_t\<rparr>"
  have e: "head near_end = tail near_end" and l: "length (data near_end) = unat BUFFER_SIZE"
    by (simp_all add: near_end_def BUFFER_SIZE_def)
  have p: "ring_push near_end [1, 2, 3, 4] 4 = Some (?rb, True)"
    by (simp add: ring_push_def near_end_def BUFFER_SIZE_def push_loop.simps)
  have d: "unat (4 :: size_t) \<le> length [0, 0, 0, 0, 9 :: u8]"
    by simp
  from push_pop_roundtrip [OF e l p d] obtain rb2 dst'
    where "ring_pop ?rb [0, 0, 0, 0, 9] 4 = Some (rb2, dst', True)"
      and "take (unat (4 :: size_t)) dst' = take (unat (4 :: size_t)) [1, 2, 3, 4]"
    by blast
  moreover have "ring_pop ?rb [0, 0, 0, 0, 9] 4 = Some (?rb\<lparr>tail := 2\<rparr>, [1, 2, 3, 4, 9], True)"
    by (simp add: ring_pop_def BUFFER_SIZE_def pop_loop.simps)
  ultimately show ?thesis using e l p by simp
qed

text \<open>
  Claim C6 as stated, for any cursors, fails: with three unread bytes in the buffer, a
  successful push of 4, 5, 6 followed by a successful pop of the same length returns the older
  bytes 1, 2, 3.
\<close>

theorem push_pop_roundtrip_counterexample:
  "ring_push init_buffer [1, 2, 3] 3 = Some (three_bytes, True) \<and>
   ring_push three_bytes [4, 5, 6] 3 = Some (six_bytes, True) \<and>
   ring_pop six_bytes [0, 0, 0] 3 = Some (six_bytes\<lparr>tail := 3\<rparr>, [1, 2, 3], True) \<and>
   [1, 2, 3] \<noteq> [4, 5, 6 :: u8]"
  by (simp add: ring_push_def ring_pop_def init_buffer_def three_bytes_def six_bytes_def
                BUFFER_SIZE_def push_loop.simps pop_loop.simps)

text \<open>
  Claim C7. In every state whose cursors lie below \<open>BUFFER_SIZE\<close> (by \<open>reachable_inv\<close> these
  include all reachable states) a push and a pop of length 0 return true and leave the buffer
  and the destination unchanged; on an empty buffer (\<open>head = tail\<close>) a pop of at least one byte
  returns false.
\<close>

theorem zero_length_calls:
  assumes "head rb < BUFFER_SIZE" and "tail rb < BUFFER_SIZE"
  shows "ring_push rb src 0 = Some (rb, True) \<and> ring_pop rb dst 0 = Some (rb, dst, True) \<and>
         (head rb = tail rb \<and> 1 \<le> len \<longrightarrow> ring_pop rb dst len = Some (rb, dst, False))"
proof -
  have "push_loop (data rb) (head rb) src 0 0 = Some (data rb)"
    by (subst push_loop.simps) simp
  then have "ring_push rb src 0 = Some (rb, True)"
    using assms(1) by (simp add: ring_push_def Let_def mask_id)
  moreover have "pop_loop (data rb) (tail rb) dst 0 0 = Some dst"
    by (subst pop_loop.simps) simp
  then have "ring_pop rb dst 0 = Some (rb, dst, True)"
    using assms(2) by (simp add: ring_pop_def Let_def mask_id)
  moreover have "ring_pop rb dst len = Some (rb, dst, False)" if "head rb = tail rb" "1 \<le> len"
  proof (rule ring_pop_fail)
    from that(1) have "occupied_bytes rb = 0" by (simp add: occupied_bytes_def)
    moreover from that(2) have "0 < uint len" by (simp add: word_le_def)
    ultimately show "occupied_bytes rb < uint len" by simp
  qed
  ultimately show ?thesis by simp
qed

theorem zero_length_calls_witness:
  "head init_buffer < BUFFER_SIZE \<and> tail init_buffer < BUFFER_SIZE \<and>
   head init_buffer = tail init_buffer \<and>
   ring_push init_buffer [] 0 = Some (init_buffer, True) \<and>
   ring_pop init_buffer [5] 0 = Some (init_buffer, [5], True) \<and>
   ring_pop init_buffer [5] 1 = Some (init_buffer, [5], False)"
proof -
  have h: "head init_buffer < BUFFER_SIZE" and t: "tail init_buffer < BUFFER_SIZE"
    and e: "head init_buffer = tail init_buffer"
    by (simp_all add: init_buffer_def BUFFER_SIZE_def)
  from zero_length_calls [OF h t, where src = "[]" and dst = "[5]" and len = 1] e
  show ?thesis using h t by simp
qed

text \<open>
  Claim C8. In every state reachable from a buffer with both cursors at 0, both cursors lie
  below \<open>BUFFER_SIZE\<close>, \<open>occupied_bytes\<close> and \<open>free_bytes\<close> lie between 0 and
  \<open>BUFFER_SIZE - 1\<close>, and they are the values of \<^verbatim>\<open>available\<close> that \<open>ring_pop\<close> and
  \<open>ring_push\<close> compute and compare the length with.
\<close>

theorem cursor_invariant:
  assumes "reachable rb"
  shows "head rb < BUFFER_SIZE \<and> tail rb < BUFFER_SIZE \<and>
         0 \<le> occupied_bytes rb \<and> occupied_bytes rb \<le> uint BUFFER_SIZE - 1 \<and>
         0 \<le> free_bytes rb \<and> free_bytes rb \<le> uint BUFFER_SIZE - 1 \<and>
         uint ((head rb - tail rb) AND (BUFFER_SIZE - 1)) = occupied_bytes rb \<and>
         uint ((tail rb - head rb - 1) AND (BUFFER_SIZE - 1)) = free_bytes rb \<and>
         (ring_pop rb dst len = Some (rb, dst, False)) = (occupied_bytes rb < uint len) \<and>
         (ring_push rb src len = Some (rb, False)) = (free_bytes rb < uint len)"
proof -
  have "(ring_pop rb dst len = Some (rb, dst, False)) = (occupied_bytes rb < uint len)"
    using ring_pop_False [of rb dst len rb dst] ring_pop_fail [of rb len dst] by blast
  moreover have "(ring_push rb src len = Some (rb, False)) = (free_bytes rb < uint len)"
    using ring_push_False [of rb src len rb] ring_push_fail [of rb len src] by blast
  ultimately show ?thesis
    using reachable_inv [OF assms] occupied_bytes_range [of rb]
    by (simp add: free_bytes_eq pop_available push_available uint_BUFFER_SIZE)
qed

theorem cursor_invariant_witness:
  "reachable three_bytes \<and> head three_bytes < BUFFER_SIZE \<and> tail three_bytes < BUFFER_SIZE \<and>
   occupied_bytes three_bytes = 3 \<and> free_bytes three_bytes = 1020 \<and>
   uint ((head three_bytes - tail three_bytes) AND (BUFFER_SIZE - 1)) = occupied_bytes three_bytes \<and>
   uint ((tail three_bytes - head three_bytes - 1) AND (BUFFER_SIZE - 1)) = free_bytes three_bytes"
proof -
  have "reachable init_buffer"
    unfolding init_buffer_def by (rule reachable_init) simp
  moreover have "ring_push init_buffer [1, 2, 3] 3 = Some (three_bytes, True)"
    by (simp add: ring_push_def init_buffer_def three_bytes_def BUFFER_SIZE_def push_loop.simps)
  ultimately have r: "reachable three_bytes"
    by (rule reachable_push)
  have "occupied_bytes three_bytes = 3" "free_bytes three_bytes = 1020"
    by (simp_all add: occupied_bytes_def free_bytes_def three_bytes_def BUFFER_SIZE_def)
  with cursor_invariant [OF r, where dst = "[]" and len = 0 and src = "[]"] r show ?thesis by simp
qed

text \<open>
  Claim C9. Occupied and free bytes add up to \<open>BUFFER_SIZE - 1\<close>; a successful push of \<open>len\<close>
  bytes raises the occupied bytes by \<open>len\<close> and lowers the free bytes by \<open>len\<close>, and a
  successful pop does the reverse. This holds for all cursor values, in particular for those
  below \<open>BUFFER_SIZE\<close>.
\<close>

theorem occupancy_conservation:
  "occupied_bytes rb + free_bytes rb = uint BUFFER_SIZE - 1 \<and>
   (ring_push rb src len = Some (rb', True) \<longrightarrow>
      occupied_bytes rb' = occupied_bytes rb + uint len \<and> free_bytes rb' = free_bytes rb - uint len) \<and>
   (ring_pop rb dst len = Some (rb'', dst', True) \<longrightarrow>
      occupied_bytes rb'' = occupied_bytes rb - uint len \<and> free_bytes rb'' = free_bytes rb + uint len)"
proof -
  have "occupied_bytes rb' = occupied_bytes rb + uint len" if "ring_push rb src len = Some (rb', True)"
    using ring_push_True [OF that] by (simp add: occupied_bytes_push)
  moreover have "occupied_bytes rb'' = occupied_bytes rb - uint len"
    if "ring_pop rb dst len = Some (rb'', dst', True)"
    using ring_pop_True [OF that] by (simp add: occupied_bytes_pop)
  ultimately show ?thesis
    by (simp add: free_bytes_eq uint_BUFFER_SIZE)
qed

theorem occupancy_conservation_witness:
  "ring_push three_bytes [4, 5, 6] 3 = Some (six_bytes, True) \<and>
   ring_pop six_bytes [0, 0] 2 = Some (six_bytes\<lparr>tail := 2\<rparr>, [1, 2], True) \<and>
   occupied_bytes three_bytes = 3 \<and> free_bytes three_bytes = 1020 \<and>
   occupied_bytes six_bytes = 6 \<and> free_bytes six_bytes = 1017 \<and>
   occupied_bytes (six_bytes\<lparr>tail := 2\<rparr>) = 4 \<and> free_bytes (six_bytes\<lparr>tail := 2\<rparr>) = 1019"
proof -
  have p: "ring_push three_bytes [4, 5, 6] 3 = Some (six_bytes, True)"
    by (simp add: ring_push_def three_bytes_def six_bytes_def BUFFER_SIZE_def push_loop.simps)
  have q: "ring_pop six_bytes [0, 0] 2 = Some (six_bytes\<lparr>tail := 2\<rparr>, [1, 2], True)"
    by (simp add: ring_pop_def six_bytes_def BUFFER_SIZE_def pop_loop.simps)
  have o: "occupied_bytes three_bytes = 3"
    by (simp add: occupied_bytes_def three_bytes_def BUFFER_SIZE_def)
  from occupancy_conservation [where rb = three_bytes and src = "[4, 5, 6]" and len = 3 and rb' = six_bytes
                                  and dst = "[]" and rb'' = three_bytes and dst' = "[]"] p o
  have a: "free_bytes three_bytes = 1020 \<and> occupied_bytes six_bytes = 6 \<and> free_bytes six_bytes = 1017"
    by (simp add: BUFFER_SIZE_def)
  from occupancy_conservation [where rb = six_bytes and src = "[]" and len = 2 and rb' = six_bytes
                                  and dst = "[0, 0]" and rb'' = "six_bytes\<lparr>tail := 2\<rparr>"
                                  and dst' = "[1, 2]"] q a
  have "occupied_bytes (six_bytes\<lparr>tail := 2\<rparr>) = 4 \<and> free_bytes (six_bytes\<lparr>tail := 2\<rparr>) = 1019"
    by simp
  with p q o a show ?thesis by simp
qed

text \<open>
  Claim C10. A successful push leaves the tail cursor, the length of the storage array and
  every storage byte whose index is not \<open>(head + i) mod BUFFER_SIZE\<close> for some \<open>i < len\<close>
  unchanged; a successful pop leaves the head cursor and the whole storage array unchanged.
\<close>

theorem frame_of_success:
  "(ring_push rb src len = Some (rb', True) \<longrightarrow>
      tail rb' = tail rb \<and> length (data rb') = length (data rb) \<and>
      (\<forall>j. (\<forall>i < unat len. j \<noteq> (unat (head rb) + i) mod unat BUFFER_SIZE) \<longrightarrow>
           data rb' ! j = data rb ! j)) \<and>
   (ring_pop rb dst len = Some (rb'', dst', True) \<longrightarrow>
      head rb'' = head rb \<and> data rb'' = data rb)"
proof -
  have "tail rb' = tail rb \<and> length (data rb') = length (data rb) \<and>
      (\<forall>j. (\<forall>i < unat len. j \<noteq> (unat (head rb) + i) mod unat BUFFER_SIZE) \<longrightarrow>
           data rb' ! j = data rb ! j)" if ok: "ring_push rb src len = Some (rb', True)"
  proof -
    from ring_push_True [OF ok]
    have rb': "rb' = rb\<lparr>data := ring_write (data rb) (unat (head rb)) (take (unat len) src),
                  head := (head rb + len) AND (BUFFER_SIZE - 1)\<rparr>"
      by simp
    have "ring_write (data rb) (unat (head rb)) (take (unat len) src) ! j = data rb ! j"
      if "\<forall>i < unat len. j \<noteq> (unat (head rb) + i) mod unat BUFFER_SIZE" for j
    proof (rule ring_write_other)
      fix k assume "k < length (take (unat len) src)"
      then have "k < unat len" by simp
      with that show "(unat (head rb) + k) mod 1024 \<noteq> j" by (auto simp: unat_BUFFER_SIZE)
    qed
    with rb' show ?thesis by (simp add: length_ring_write)
  qed
  moreover have "head rb'' = head rb \<and> data rb'' = data rb"
    if "ring_pop rb dst len = Some (rb'', dst', True)"
    using ring_pop_True [OF that] by simp
  ultimately show ?thesis by blast
qed

theorem frame_of_success_witness:
  "ring_push near_end [1, 2, 3, 4] 4 =
     Some (\<lparr>data = (replicate 1024 0)[1022 := 1, 1023 := 2, 0 := 3, 1 := 4], head = 2, tail = 1022\<rparr>, True) \<and>
   ring_pop six_bytes [0, 0] 2 = Some (six_bytes\<lparr>tail := 2\<rparr>, [1, 2], True) \<and>
   tail \<lparr>data = (replicate 1024 0)[1022 := 1, 1023 := 2, 0 := 3, 1 := 4], head = 2, tail = 1022\<rparr> = tail near_end \<and>
   (replicate 1024 0)[1022 := 1, 1023 := 2, 0 := 3, 1 := (4 :: u8)] ! 2 = data near_end ! 2 \<and>
   head (six_bytes\<lparr>tail := 2\<rparr>) = head six_bytes \<and> data (six_bytes\<lparr>tail := 2\<rparr>) = data six_bytes"
proof -
  let ?rb = "\<lparr>data = (replicate 1024 0)[1022 := 1, 1023 := 2, 0 := 3, 1 := 4], head = 2, tail = 1022\<rparr>"
  have p: "ring_push near_end [1, 2, 3, 4] 4 = Some (?rb, True)"
    by (simp add: ring_push_def near_end_def BUFFER_SIZE_def push_loop.simps)
  have q: "ring_pop six_bytes [0, 0] 2 = Some (six_bytes\<lparr>tail := 2\<rparr>, [1, 2], True)"
    by (simp add: ring_pop_def six_bytes_def BUFFER_SIZE_def pop_loop.simps)
  have j: "\<forall>i < unat (4 :: size_t). (2 :: nat) \<noteq> (unat (head near_end) + i) mod unat BUFFER_SIZE"
  proof (intro allI impI)
    fix i :: nat assume "i < unat (4 :: size_t)"
    then have "i = 0 \<or> i = 1 \<or> i = 2 \<or> i = 3" by auto
    then show "(2 :: nat) \<noteq> (unat (head near_end) + i) mod unat BUFFER_SIZE"
      by (auto simp: near_end_def BUFFER_SIZE_def)
  qed
  from frame_of_success [where rb = near_end and src = "[1, 2, 3, 4]" and len = 4 and rb' = ?rb
                            and dst = "[]" and rb'' = near_end and dst' = "[]"] p
  have "tail ?rb = tail near_end \<and>
        (\<forall>j. (\<forall>i < unat (4 :: size_t). j \<noteq> (unat (head near_end) + i) mod unat BUFFER_SIZE) \<longrightarrow>
             data ?rb ! j = data near_end ! j)"
    by simp
  with j have a: "tail ?rb = tail near_end \<and> data ?rb ! 2 = data near_end ! 2"
    by blast
  from frame_of_success [where rb = six_bytes and src = "[]" and len = 2 and rb' = six_bytes
                            and dst = "[0, 0]" and rb'' = "six_bytes\<lparr>tail := 2\<rparr>"
                            and dst' = "[1, 2]"] q
  have "head (six_bytes\<lparr>tail := 2\<rparr>) = head six_bytes \<and> data (six_bytes\<lparr>tail := 2\<rparr>) = data six_bytes"
    by simp
  with a p q show ?thesis by simp
qed

end
